theory Spec2Isabelle
  imports Complex_Main
begin

section \<open>Tables\<close>

text \<open>
  The module \<^verbatim>\<open>calculate_differences.py\<close> works on pandas data frames. A frame is
  modelled by its number of rows (the index is the default \<^verbatim>\<open>range(index_len)\<close>, which
  the source's label-based reads \<^verbatim>\<open>x_y_data[kp][time_stamp]\<close> presuppose) and the
  ordered list of its named columns. Numbers range over any linearly ordered ring
  (\<^typ>\<open>int\<close>, \<^typ>\<open>real\<close>): arithmetic is exact.
\<close>

record 'v data_frame =
  index_len :: nat
  columns :: "(string \<times> 'v list) list"

text \<open>A frame is well formed when its column names are distinct and every column has one
  value per row.\<close>

definition well_formed :: "'v data_frame \<Rightarrow> bool" where
  "well_formed df =
     (distinct (map fst (columns df)) \<and>
      list_all (\<lambda>kc. length (snd kc) = index_len df) (columns df))"

text \<open>\<^verbatim>\<open>DataFrame.empty\<close>: true when any of the two axes has length 0.\<close>

definition empty :: "'v data_frame \<Rightarrow> bool" where
  "empty df = (index_len df = 0 \<or> columns df = [])"

text \<open>A cell of a frame created without data holds NaN until it is assigned.\<close>

datatype 'a cell = NaN | Num 'a

text \<open>\<^verbatim>\<open>pd.DataFrame(columns=names, index=range(n))\<close>: every cell is NaN.\<close>

definition new_frame :: "string list \<Rightarrow> nat \<Rightarrow> 'a cell data_frame" where
  "new_frame names n = \<lparr>index_len = n, columns = map (\<lambda>kp. (kp, replicate n NaN)) names\<rparr>"

text \<open>\<^verbatim>\<open>df.at[t, kp] = v\<close> for a row label \<open>t\<close> of the index and a column \<open>kp\<close> of the
  frame (the only use the delta computation makes of it).\<close>

definition at_set :: "'v data_frame \<Rightarrow> nat \<Rightarrow> string \<Rightarrow> 'v \<Rightarrow> 'v data_frame" where
  "at_set df t kp v =
     df\<lparr>columns := map (\<lambda>(k, c). if k = kp then (k, c[t := v]) else (k, c)) (columns df)\<rparr>"

text \<open>Reading a cell: \<open>None\<close> when the frame has no such column or row.\<close>

definition at_get :: "'v data_frame \<Rightarrow> nat \<Rightarrow> string \<Rightarrow> 'v option" where
  "at_get df t kp =
     (case map_of (columns df) kp of
        None \<Rightarrow> None
      | Some c \<Rightarrow> if t < length c then Some (c ! t) else None)"

section \<open>Deltas between consecutive time stamps\<close>

datatype error = ValueError

text \<open>The variables the two loops of
  \<^verbatim>\<open>get_table_of_deltas_between_time_stamps_in_all_kps\<close> update: the frame \<open>deltas\<close> and
  the dictionary of dictionaries of zero counters live across key points, the location
  and the running counter are reset for each key point.\<close>

record 'a scan_state =
  deltas :: "'a cell data_frame"
  counter_of_all_zeros_in_a_row_for_all_kps :: "string \<rightharpoonup> (nat \<rightharpoonup> nat)"
  loc_of_last_timestamp_before_zero :: nat
  counter_of_zeros_in_a_row :: nat

text \<open>\<^verbatim>\<open>d[kp][t] = c\<close> on the dictionary of dictionaries; the entry for \<open>kp\<close> exists
  whenever the scan stores into it (it is created when the scan of \<open>kp\<close> starts).\<close>

definition dict_set ::
  "(string \<rightharpoonup> (nat \<rightharpoonup> nat)) \<Rightarrow> string \<Rightarrow> nat \<Rightarrow> nat \<Rightarrow> (string \<rightharpoonup> (nat \<rightharpoonup> nat))" where
  "dict_set d kp t c = d(kp \<mapsto> (case d kp of None \<Rightarrow> Map.empty | Some m \<Rightarrow> m)(t \<mapsto> c))"

text \<open>The body of the inner loop (lines 36 to 51), for the column \<open>vals\<close> of key point
  \<open>kp\<close> at \<open>time_stamp\<close>. When no branch of the chain fires, nothing is assigned.\<close>

definition time_stamp_step ::
  "string \<Rightarrow> ('a::linordered_idom) list \<Rightarrow> 'a scan_state \<Rightarrow> nat \<Rightarrow> 'a scan_state" where
  "time_stamp_step kp vals st time_stamp =
     (if vals ! time_stamp > 0 \<and> vals ! (time_stamp + 1) > 0 then
        st\<lparr>deltas := at_set (deltas st) time_stamp kp
              (Num (vals ! (time_stamp + 1) - vals ! time_stamp))\<rparr>
      else if vals ! time_stamp = 0 \<and> vals ! (time_stamp + 1) > 0 then
        st\<lparr>deltas := at_set (deltas st) time_stamp kp
              (Num (vals ! (time_stamp + 1) - vals ! loc_of_last_timestamp_before_zero st)),
           counter_of_all_zeros_in_a_row_for_all_kps :=
             dict_set (counter_of_all_zeros_in_a_row_for_all_kps st) kp time_stamp
               (counter_of_zeros_in_a_row st),
           counter_of_zeros_in_a_row := 0\<rparr>
      else if vals ! time_stamp = 0 \<and> vals ! (time_stamp + 1) = 0 then
        st\<lparr>counter_of_zeros_in_a_row := counter_of_zeros_in_a_row st + 1,
           deltas := at_set (deltas st) time_stamp kp (Num 0)\<rparr>
      else if vals ! time_stamp > 0 \<and> vals ! (time_stamp + 1) = 0 then
        st\<lparr>loc_of_last_timestamp_before_zero := time_stamp,
           deltas := at_set (deltas st) time_stamp kp (Num 0),
           counter_of_zeros_in_a_row := 1\<rparr>
      else st)"

text \<open>The inner loop after \<open>n\<close> iterations, from the state the body of the outer loop
  sets up (lines 32 to 34).\<close>

definition kp_scan ::
  "'a scan_state \<Rightarrow> string \<Rightarrow> ('a::linordered_idom) list \<Rightarrow> nat \<Rightarrow> 'a scan_state" where
  "kp_scan st kp vals n =
     foldl (time_stamp_step kp vals)
       (st\<lparr>counter_of_all_zeros_in_a_row_for_all_kps :=
              (counter_of_all_zeros_in_a_row_for_all_kps st)(kp \<mapsto> Map.empty),
           loc_of_last_timestamp_before_zero := 0,
           counter_of_zeros_in_a_row := 0\<rparr>)
       [0..<n]"

text \<open>The body of the outer loop: the whole scan of one key point,
  \<^verbatim>\<open>range(x_y_data.shape[0]-1)\<close>.\<close>

definition kp_step ::
  "('a::linordered_idom) data_frame \<Rightarrow> 'a scan_state \<Rightarrow> string \<times> 'a list \<Rightarrow> 'a scan_state" where
  "kp_step x_y_data st kc = kp_scan st (fst kc) (snd kc) (index_len x_y_data - 1)"

text \<open>The function with its local variables: the state when it returns, or the error it
  raises.\<close>

definition scan_all_kps :: "('a::linordered_idom) data_frame \<Rightarrow> error + 'a scan_state" where
  "scan_all_kps x_y_data =
     (if empty x_y_data then Inl ValueError
      else Inr (foldl (kp_step x_y_data)
             \<lparr>deltas = new_frame (map fst (columns x_y_data)) (index_len x_y_data - 1),
              counter_of_all_zeros_in_a_row_for_all_kps = Map.empty,
              loc_of_last_timestamp_before_zero = 0,
              counter_of_zeros_in_a_row = 0\<rparr>
             (columns x_y_data)))"

text \<open>What the caller gets: the frame \<open>deltas\<close>.\<close>

definition get_table_of_deltas_between_time_stamps_in_all_kps ::
  "('a::linordered_idom) data_frame \<Rightarrow> error + 'a cell data_frame" where
  "get_table_of_deltas_between_time_stamps_in_all_kps x_y_data =
     (case scan_all_kps x_y_data of Inl e \<Rightarrow> Inl e | Inr st \<Rightarrow> Inr (deltas st))"

section \<open>The delta rule as the specification words it\<close>

text \<open>The gap state of a channel before transition \<open>i\<close>: both components start at 0 and
  follow the state-update column of the four-row table.\<close>

record gap_state =
  last_known_good_index :: nat
  zero_run_length :: nat

fun spec_gap_state :: "('a::linordered_idom) list \<Rightarrow> nat \<Rightarrow> gap_state" where
  "spec_gap_state v 0 = \<lparr>last_known_good_index = 0, zero_run_length = 0\<rparr>"
| "spec_gap_state v (Suc i) =
     (let g = spec_gap_state v i in
      if v ! i > 0 \<and> v ! Suc i > 0 then g
      else if v ! i = 0 \<and> v ! Suc i > 0 then g\<lparr>zero_run_length := 0\<rparr>
      else if v ! i = 0 \<and> v ! Suc i = 0 then g\<lparr>zero_run_length := zero_run_length g + 1\<rparr>
      else if v ! i > 0 \<and> v ! Suc i = 0 then
        \<lparr>last_known_good_index = i, zero_run_length = 1\<rparr>
      else g)"

text \<open>The delta column of the table; no row of the table applies to a negative value.\<close>

definition spec_delta :: "('a::linordered_idom) list \<Rightarrow> nat \<Rightarrow> 'a cell" where
  "spec_delta v i =
     (if v ! i > 0 \<and> v ! Suc i > 0 then Num (v ! Suc i - v ! i)
      else if v ! i = 0 \<and> v ! Suc i > 0 then
        Num (v ! Suc i - v ! last_known_good_index (spec_gap_state v i))
      else if v ! i = 0 \<and> v ! Suc i = 0 then Num 0
      else if v ! i > 0 \<and> v ! Suc i = 0 then Num 0
      else NaN)"

text \<open>The diagnostic: recorded at a bridging transition only.\<close>

definition spec_diagnostic :: "('a::linordered_idom) list \<Rightarrow> nat \<Rightarrow> nat option" where
  "spec_diagnostic v i =
     (if v ! i = 0 \<and> v ! Suc i > 0 then Some (zero_run_length (spec_gap_state v i)) else None)"

text \<open>The four conditions of the chain, in the order of the source.\<close>

definition branch_conditions :: "('a::linordered_idom) \<Rightarrow> 'a \<Rightarrow> bool list" where
  "branch_conditions a b = [a > 0 \<and> b > 0, a = 0 \<and> b > 0, a = 0 \<and> b = 0, a > 0 \<and> b = 0]"

definition non_negative :: "('a::linordered_idom) data_frame \<Rightarrow> bool" where
  "non_negative df = list_all (\<lambda>kc. list_all (\<lambda>x. 0 \<le> x) (snd kc)) (columns df)"

text \<open>The whole delta table the rule describes for a trajectory table: one row less, the
  same channels in the same order.\<close>

definition spec_deltas :: "('a::linordered_idom) data_frame \<Rightarrow> 'a cell data_frame" where
  "spec_deltas table =
     \<lparr>index_len = index_len table - 1,
      columns = map (\<lambda>(kp, vals). (kp, map (spec_delta vals) [0..<index_len table - 1]))
                  (columns table)\<rparr>"

section \<open>Ranges whose sum passes the threshold\<close>

text \<open>A Python slice \<^verbatim>\<open>xs[i:j]\<close> with \<open>0 \<le> i\<close> and \<open>0 \<le> j\<close>: clipped at the end of the
  list, empty when \<open>j \<le> i\<close>.\<close>

definition py_slice :: "'v list \<Rightarrow> nat \<Rightarrow> nat \<Rightarrow> 'v list" where
  "py_slice xs i j = take (j - i) (drop i xs)"

text \<open>\<^verbatim>\<open>get_start_to_end_list\<close> (lines 126 to 131): two nested loops appending to a list.
  The two lists hold numbers: a list with a NaN element (a delta cell that was never
  assigned), on which Python's \<^verbatim>\<open>sum\<close> is NaN and the comparison is false, is not a
  value of this type.\<close>

definition get_start_to_end_list ::
  "('a::linordered_idom) list \<Rightarrow> 'a list \<Rightarrow> 'a \<Rightarrow> (nat \<times> nat) list" where
  "get_start_to_end_list values_x values_y threshold =
     foldl (\<lambda>acc i.
        foldl (\<lambda>acc j.
           if sum_list (py_slice values_x i (i + j)) > threshold
              \<or> sum_list (py_slice values_y i (i + j)) > threshold
           then acc @ [(i, i + j)] else acc)
          acc [0..<30])
       [] [0..<length values_x]"

text \<open>The segmenter as the specification words it: every start index \<open>i\<close> in \<open>[0, N)\<close>,
  every window length \<open>j\<close> in \<open>[0, W)\<close> with \<open>W = 30\<close>, in this order.\<close>

definition spec_find_ranges ::
  "('a::linordered_idom) list \<Rightarrow> 'a list \<Rightarrow> 'a \<Rightarrow> (nat \<times> nat) list" where
  "spec_find_ranges ref_x ref_y threshold =
     [(i, i + j). i \<leftarrow> [0..<length ref_x], j \<leftarrow> [0..<30],
        sum_list (py_slice ref_x i (i + j)) > threshold
        \<or> sum_list (py_slice ref_y i (i + j)) > threshold]"

text \<open>Ascending by start index, then by end index.\<close>

definition range_less :: "nat \<times> nat \<Rightarrow> nat \<times> nat \<Rightarrow> bool" where
  "range_less r s = (fst r < fst s \<or> (fst r = fst s \<and> snd r < snd s))"

text \<open>A window of a channel of numbers that holds a positive delta at \<open>p\<close> and no
  negative one.\<close>

definition positive_window :: "('a::linordered_idom) list \<Rightarrow> nat \<Rightarrow> nat \<Rightarrow> nat \<Rightarrow> bool" where
  "positive_window vs i j p =
     (p < length vs \<and> i \<le> p \<and> p < i + j \<and> 0 < vs ! p \<and>
      list_all (\<lambda>x. 0 \<le> x) (py_slice vs i (i + j)))"

section \<open>Sums over the ranges\<close>

text \<open>A one-column frame that starts with no rows: the list of its rows, each with its
  label, in the order the rows were created. \<^verbatim>\<open>frame.at[i, column] = v\<close> overwrites the row
  labelled \<open>i\<close> or, when there is none, appends it.\<close>

definition at_set_enlarge :: "(nat \<times> 'v) list \<Rightarrow> nat \<Rightarrow> 'v \<Rightarrow> (nat \<times> 'v) list" where
  "at_set_enlarge rows i v =
     (if i \<in> set (map fst rows)
      then map (\<lambda>(k, x). if k = i then (k, v) else (k, x)) rows
      else rows @ [(i, v)])"

text \<open>Python's \<^verbatim>\<open>str\<close> of a natural number: its decimal digits.\<close>

definition digits :: string where
  "digits = ''0123456789''"

fun str :: "nat \<Rightarrow> string" where
  "str n = (if n < 10 then [digits ! n] else str (n div 10) @ [digits ! (n mod 10)])"

declare str.simps [simp del]

text \<open>\<^verbatim>\<open>create_timestamps_column\<close> (lines 95 to 98); the label is \<^verbatim>\<open>f"{i}-{j}"\<close>.\<close>

definition create_timestamps_column :: "(nat \<times> nat) list \<Rightarrow> (nat \<times> string) list" where
  "create_timestamps_column start_to_end_locations_tuple_list =
     foldl (\<lambda>timestamps_column (i, j).
              at_set_enlarge timestamps_column i (str i @ ''-'' @ str j))
       [] start_to_end_locations_tuple_list"

text \<open>\<^verbatim>\<open>Series.sum()\<close> skips NaN cells; the sum of no cell is 0.\<close>

fun sum_skipna :: "('a::linordered_idom) cell list \<Rightarrow> 'a" where
  "sum_skipna [] = 0"
| "sum_skipna (NaN # cs) = sum_skipna cs"
| "sum_skipna (Num x # cs) = x + sum_skipna cs"

text \<open>\<^verbatim>\<open>create_column_of_sum_for_kp_in_range\<close> (lines 108 to 111).\<close>

definition create_column_of_sum_for_kp_in_range ::
  "('a::linordered_idom) cell list \<Rightarrow> (nat \<times> nat) list \<Rightarrow> (nat \<times> 'a) list" where
  "create_column_of_sum_for_kp_in_range delta_kp_column ranges =
     foldl (\<lambda>sum_rows (i, j).
              at_set_enlarge sum_rows i (sum_skipna (py_slice delta_kp_column i j)))
       [] ranges"

section \<open>Invariants of the two loops of the delta computation\<close>

text \<open>Column \<open>kp\<close> of \<open>deltas\<close> after \<open>n\<close> iterations of the inner loop, from the
  column \<open>c0\<close> the loop started with: a cell is overwritten when a branch fired.\<close>

definition cell_after :: "'a cell list \<Rightarrow> ('a::linordered_idom) list \<Rightarrow> nat \<Rightarrow> nat \<Rightarrow> 'a cell" where
  "cell_after c0 vals n t =
     (if t < n then (case spec_delta vals t of NaN \<Rightarrow> c0 ! t | Num x \<Rightarrow> Num x) else c0 ! t)"

definition col_after :: "('a::linordered_idom) list \<Rightarrow> nat \<Rightarrow> 'a cell list \<Rightarrow> 'a cell list" where
  "col_after vals n c0 = map (cell_after c0 vals n) [0..<length c0]"

definition diag_after :: "('a::linordered_idom) list \<Rightarrow> nat \<Rightarrow> (nat \<rightharpoonup> nat)" where
  "diag_after vals n = (\<lambda>t. if t < n then spec_diagnostic vals t else None)"

text \<open>The state after \<open>n\<close> iterations of the inner loop for \<open>kp\<close>, entered in \<open>st0\<close>.\<close>

definition kp_inv ::
  "'a scan_state \<Rightarrow> string \<Rightarrow> ('a::linordered_idom) list \<Rightarrow> nat \<Rightarrow> 'a scan_state \<Rightarrow> bool" where
  "kp_inv st0 kp vals n st =
     (index_len (deltas st) = index_len (deltas st0) \<and>
      map fst (columns (deltas st)) = map fst (columns (deltas st0)) \<and>
      (\<forall>k. map_of (columns (deltas st)) k =
            (if k = kp then map_option (col_after vals n) (map_of (columns (deltas st0)) k)
             else map_of (columns (deltas st0)) k)) \<and>
      (\<forall>k. counter_of_all_zeros_in_a_row_for_all_kps st k =
            (if k = kp then Some (diag_after vals n)
             else counter_of_all_zeros_in_a_row_for_all_kps st0 k)) \<and>
      loc_of_last_timestamp_before_zero st = last_known_good_index (spec_gap_state vals n) \<and>
      counter_of_zeros_in_a_row st = zero_run_length (spec_gap_state vals n))"

text \<open>The state after the outer loop went through the columns \<open>cs\<close>, entered in \<open>st0\<close>.\<close>

definition all_inv ::
  "nat \<Rightarrow> 'a scan_state \<Rightarrow> (string \<times> ('a::linordered_idom) list) list \<Rightarrow> 'a scan_state \<Rightarrow> bool" where
  "all_inv n st0 cs st =
     (index_len (deltas st) = index_len (deltas st0) \<and>
      map fst (columns (deltas st)) = map fst (columns (deltas st0)) \<and>
      (\<forall>k. map_of (columns (deltas st)) k =
            (case map_of cs k of
               None \<Rightarrow> map_of (columns (deltas st0)) k
             | Some vals \<Rightarrow> map_option (col_after vals n) (map_of (columns (deltas st0)) k))) \<and>
      (\<forall>k. counter_of_all_zeros_in_a_row_for_all_kps st k =
            (case map_of cs k of
               None \<Rightarrow> counter_of_all_zeros_in_a_row_for_all_kps st0 k
             | Some vals \<Rightarrow> Some (diag_after vals n))))"

section \<open>The loops compute the rule\<close>

lemma at_set_names: "map fst (columns (at_set df t kp v)) = map fst (columns df)"
  by (induction "columns df" arbitrary: df) (auto simp: at_set_def split: prod.splits)

lemma map_of_upd_cols:
  "map_of (map (\<lambda>(k, c). if k = kp then (k, f c) else (k, c)) xs) k =
     (if k = kp then map_option f (map_of xs k) else map_of xs k)"
  by (induction xs) auto

lemma at_set_col:
  "map_of (columns (at_set df t kp v)) k =
     (if k = kp then map_option (\<lambda>c. c[t := v]) (map_of (columns df) k) else map_of (columns df) k)"
  unfolding at_set_def by (simp add: map_of_upd_cols)

lemma at_set_index_len: "index_len (at_set df t kp v) = index_len df"
  by (simp add: at_set_def)

lemma col_after_0: "col_after vals 0 c0 = c0"
  by (rule nth_equalityI) (simp_all add: col_after_def cell_after_def)

lemma col_after_Suc_Num:
  "spec_delta vals n = Num x \<Longrightarrow> (col_after vals n c0)[n := Num x] = col_after vals (Suc n) c0"
  by (rule nth_equalityI) (auto simp: col_after_def cell_after_def nth_list_update less_Suc_eq)

lemma col_after_Suc_NaN:
  "spec_delta vals n = NaN \<Longrightarrow> col_after vals (Suc n) = col_after vals n"
  by (rule ext, rule nth_equalityI) (auto simp: col_after_def cell_after_def less_Suc_eq)

lemma diag_after_0: "diag_after vals 0 = Map.empty"
  by (simp add: diag_after_def)

lemma diag_after_Suc_Some:
  "spec_diagnostic vals n = Some c \<Longrightarrow> (diag_after vals n)(n \<mapsto> c) = diag_after vals (Suc n)"
  by (auto simp: diag_after_def fun_eq_iff less_Suc_eq)

lemma diag_after_Suc_None:
  "spec_diagnostic vals n = None \<Longrightarrow> diag_after vals n = diag_after vals (Suc n)"
  by (auto simp: diag_after_def fun_eq_iff less_Suc_eq)

lemma kp_inv_step:
  assumes "kp_inv st0 kp vals n st"
  shows "kp_inv st0 kp vals (Suc n) (time_stamp_step kp vals st n)"
proof -
  consider (b1) "vals ! n > 0 \<and> vals ! Suc n > 0"
    | (b2) "vals ! n = 0 \<and> vals ! Suc n > 0"
    | (b3) "vals ! n = 0 \<and> vals ! Suc n = 0"
    | (b4) "vals ! n > 0 \<and> vals ! Suc n = 0"
    | (b5) "\<not> (vals ! n > 0 \<and> vals ! Suc n > 0) \<and> \<not> (vals ! n = 0 \<and> vals ! Suc n > 0)
           \<and> \<not> (vals ! n = 0 \<and> vals ! Suc n = 0) \<and> \<not> (vals ! n > 0 \<and> vals ! Suc n = 0)"
    by blast
  then show ?thesis
  proof cases
    case b1
    then have d: "spec_delta vals n = Num (vals ! Suc n - vals ! n)"
      and g: "spec_diagnostic vals n = None"
      by (auto simp: spec_delta_def spec_diagnostic_def)
    from b1 assms show ?thesis
      unfolding kp_inv_def time_stamp_step_def
      by (simp add: Let_def at_set_col at_set_names at_set_index_len option.map_comp comp_def
          col_after_Suc_Num[OF d] diag_after_Suc_None[OF g, symmetric])
  next
    case b2
    then have d: "spec_delta vals n =
        Num (vals ! Suc n - vals ! last_known_good_index (spec_gap_state vals n))"
      and g: "spec_diagnostic vals n = Some (zero_run_length (spec_gap_state vals n))"
      by (auto simp: spec_delta_def spec_diagnostic_def)
    from b2 assms show ?thesis
      unfolding kp_inv_def time_stamp_step_def
      by (simp add: Let_def at_set_col at_set_names at_set_index_len option.map_comp comp_def dict_set_def
          col_after_Suc_Num[OF d] diag_after_Suc_Some[OF g])
  next
    case b3
    then have d: "spec_delta vals n = Num 0"
      and g: "spec_diagnostic vals n = None"
      by (auto simp: spec_delta_def spec_diagnostic_def)
    from b3 assms show ?thesis
      unfolding kp_inv_def time_stamp_step_def
      by (simp add: Let_def at_set_col at_set_names at_set_index_len option.map_comp comp_def
          col_after_Suc_Num[OF d] diag_after_Suc_None[OF g, symmetric])
  next
    case b4
    then have d: "spec_delta vals n = Num 0"
      and g: "spec_diagnostic vals n = None"
      by (auto simp: spec_delta_def spec_diagnostic_def)
    from b4 assms show ?thesis
      unfolding kp_inv_def time_stamp_step_def
      by (simp add: Let_def at_set_col at_set_names at_set_index_len option.map_comp comp_def
          col_after_Suc_Num[OF d] diag_after_Suc_None[OF g, symmetric])
  next
    case b5
    then have d: "spec_delta vals n = NaN"
      and g: "spec_diagnostic vals n = None"
      by (auto simp: spec_delta_def spec_diagnostic_def)
    from b5 have s: "time_stamp_step kp vals st n = st"
      and e: "spec_gap_state vals (Suc n) = spec_gap_state vals n"
      by (auto simp: time_stamp_step_def)
    from assms show ?thesis
      unfolding kp_inv_def s e
      by (simp add: col_after_Suc_NaN[OF d] diag_after_Suc_None[OF g, symmetric])
  qed
qed

lemma kp_inv_scan:
  "kp_inv st kp vals n (kp_scan st kp vals n)"
proof (induction n)
  case 0
  show ?case
    by (simp add: kp_scan_def kp_inv_def col_after_0 diag_after_0 option.map_ident
        cong: option.map_cong)
next
  case (Suc n)
  have "kp_scan st kp vals (Suc n) = time_stamp_step kp vals (kp_scan st kp vals n) n"
    by (simp add: kp_scan_def)
  with kp_inv_step[OF Suc] show ?case by simp
qed


lemma all_inv_foldl:
  "distinct (map fst cs) \<Longrightarrow>
   all_inv (index_len df - 1) st cs (foldl (kp_step df) st cs)"
proof (induction cs arbitrary: st)
  case Nil
  show ?case by (simp add: all_inv_def)
next
  case (Cons kc cs)
  obtain kp vals where kc: "kc = (kp, vals)" by (cases kc)
  let ?n = "index_len df - 1"
  let ?st1 = "kp_scan st kp vals ?n"
  from Cons.prems kc have d: "distinct (map fst cs)" and notin: "map_of cs kp = None"
    by (auto simp: map_of_eq_None_iff)
  have i1: "kp_inv st kp vals ?n ?st1" by (rule kp_inv_scan)
  have i2: "all_inv ?n ?st1 cs (foldl (kp_step df) ?st1 cs)" by (rule Cons.IH[OF d])
  have f: "foldl (kp_step df) st (kc # cs) = foldl (kp_step df) ?st1 cs"
    by (simp add: kc kp_step_def)
  show ?case
    unfolding f using i1 i2 notin
    by (auto simp: all_inv_def kp_inv_def kc split: option.splits)
qed

lemma map_of_new_frame:
  "map_of (columns (new_frame names n)) k = (if k \<in> set names then Some (replicate n NaN) else None)"
  by (induction names) (auto simp: new_frame_def)

lemma new_frame_names: "map fst (columns (new_frame names n)) = names"
  by (simp add: new_frame_def comp_def)

lemma col_after_fresh: "col_after vals n (replicate n NaN) = map (spec_delta vals) [0..<n]"
  by (rule nth_equalityI) (auto simp: col_after_def cell_after_def split: cell.splits)

lemma assoc_list_eqI:
  "map fst xs = map fst ys \<Longrightarrow> distinct (map fst xs) \<Longrightarrow>
   (\<And>k. k \<in> fst ` set xs \<Longrightarrow> map_of xs k = map_of ys k) \<Longrightarrow> xs = ys"
proof (induction xs arbitrary: ys)
  case Nil
  then show ?case by simp
next
  case (Cons x xs)
  from Cons.prems(1) obtain y ys' where ys: "ys = y # ys'" and fxy: "fst x = fst y"
    and rest: "map fst xs = map fst ys'"
    by (cases ys) auto
  from Cons.prems(3)[of "fst x"] have "snd x = snd y" by (simp add: ys fxy)
  with fxy have xy: "x = y" by (simp add: prod_eq_iff)
  have "xs = ys'"
  proof (rule Cons.IH[OF rest])
    show "distinct (map fst xs)" using Cons.prems(2) by simp
    fix k assume k: "k \<in> fst ` set xs"
    from Cons.prems(2) have "fst x \<notin> fst ` set xs" by simp
    with k have "k \<noteq> fst x" by blast
    with Cons.prems(3)[of k] k show "map_of xs k = map_of ys' k"
      by (simp add: ys fxy split: if_splits)
  qed
  with xy ys show ?case by simp
qed

lemma scan_all_kps_result:
  assumes "distinct (map fst (columns df))" and "\<not> empty df"
  shows "\<exists>st. scan_all_kps df = Inr st \<and> deltas st = spec_deltas df \<and>
           (\<forall>kc \<in> set (columns df).
              counter_of_all_zeros_in_a_row_for_all_kps st (fst kc) =
                Some (diag_after (snd kc) (index_len df - 1)))"
proof -
  define n where "n = index_len df - 1"
  define init :: "'a scan_state" where
    "init = \<lparr>deltas = new_frame (map fst (columns df)) n,
              counter_of_all_zeros_in_a_row_for_all_kps = Map.empty,
              loc_of_last_timestamp_before_zero = 0,
              counter_of_zeros_in_a_row = 0\<rparr>"
  define st where "st = foldl (kp_step df) init (columns df)"
  have r: "scan_all_kps df = Inr st"
    using assms(2) by (simp add: scan_all_kps_def st_def init_def n_def)
  have inv: "all_inv n init (columns df) st"
    unfolding st_def n_def by (rule all_inv_foldl[OF assms(1)])
  have "index_len (deltas st) = index_len (deltas init)"
    using inv unfolding all_inv_def by blast
  then have len: "index_len (deltas st) = n" by (simp add: init_def new_frame_def)
  have "map fst (columns (deltas st)) = map fst (columns (deltas init))"
    using inv unfolding all_inv_def by blast
  then have names: "map fst (columns (deltas st)) = map fst (columns df)"
    by (simp add: init_def new_frame_names)
  have cols: "columns (deltas st) = columns (spec_deltas df)"
  proof (rule assoc_list_eqI)
    show "map fst (columns (deltas st)) = map fst (columns (spec_deltas df))"
      by (simp add: names spec_deltas_def comp_def case_prod_unfold)
    show "distinct (map fst (columns (deltas st)))" by (simp add: names assms(1))
    fix k assume "k \<in> fst ` set (columns (deltas st))"
    then have "k \<in> set (map fst (columns df))" using names by (metis set_map)
    then obtain vals where kv: "(k, vals) \<in> set (columns df)" by auto
    with assms(1) have m: "map_of (columns df) k = Some vals" by simp
    have sp: "map_of (columns (spec_deltas df)) k = Some (map (spec_delta vals) [0..<n])"
      using m by (simp add: spec_deltas_def map_of_map n_def)
    have "k \<in> set (map fst (columns df))" using kv by force
    then have "map_of (columns (deltas init)) k = Some (replicate n NaN)"
      by (simp add: init_def map_of_new_frame)
    moreover have "map_of (columns (deltas st)) k =
        map_option (col_after vals n) (map_of (columns (deltas init)) k)"
      using inv m unfolding all_inv_def by simp
    ultimately have "map_of (columns (deltas st)) k = Some (col_after vals n (replicate n NaN))"
      by simp
    then show "map_of (columns (deltas st)) k = map_of (columns (spec_deltas df)) k"
      by (simp add: sp col_after_fresh)
  qed
  have d: "deltas st = spec_deltas df"
    using len cols by (simp add: data_frame.equality spec_deltas_def n_def)
  have c: "\<forall>kc \<in> set (columns df).
              counter_of_all_zeros_in_a_row_for_all_kps st (fst kc) =
                Some (diag_after (snd kc) (index_len df - 1))"
  proof
    fix kc assume "kc \<in> set (columns df)"
    with assms(1) have "map_of (columns df) (fst kc) = Some (snd kc)" by simp
    with inv show "counter_of_all_zeros_in_a_row_for_all_kps st (fst kc) =
                Some (diag_after (snd kc) (index_len df - 1))"
      unfolding all_inv_def n_def by simp
  qed
  from r d c show ?thesis by blast
qed

lemma get_table_result:
  assumes "distinct (map fst (columns df))" and "\<not> empty df"
  shows "get_table_of_deltas_between_time_stamps_in_all_kps df = Inr (spec_deltas df)"
  using scan_all_kps_result[OF assms]
  by (auto simp: get_table_of_deltas_between_time_stamps_in_all_kps_def)

lemma at_get_spec_deltas:
  assumes "distinct (map fst (columns df))" and "(kp, v) \<in> set (columns df)"
    and "Suc i < index_len df"
  shows "at_get (spec_deltas df) i kp = Some (spec_delta v i)"
proof -
  from assms(1,2) have "map_of (columns df) kp = Some v" by simp
  then have "map_of (columns (spec_deltas df)) kp =
      Some (map (spec_delta v) [0..<index_len df - 1])"
    by (simp add: spec_deltas_def map_of_map)
  with assms(3) show ?thesis by (simp add: at_get_def)
qed

lemma gap_state_scan:
  "loc_of_last_timestamp_before_zero (kp_scan st0 kp v i) = last_known_good_index (spec_gap_state v i)
   \<and> counter_of_zeros_in_a_row (kp_scan st0 kp v i) = zero_run_length (spec_gap_state v i)"
  using kp_inv_scan[of st0 kp v i] by (simp add: kp_inv_def)

lemma spec_delta_Num:
  "0 \<le> v ! i \<Longrightarrow> 0 \<le> v ! Suc i \<Longrightarrow> \<exists>x. spec_delta v i = Num x"
  by (auto simp: spec_delta_def)

lemma spec_delta_NaN_iff:
  "spec_delta v i = NaN \<longleftrightarrow> v ! i < 0 \<or> v ! Suc i < 0"
  by (auto simp: spec_delta_def)

lemma non_negative_nth:
  assumes "well_formed df" "non_negative df" "(kp, v) \<in> set (columns df)" "i < index_len df"
  shows "0 \<le> v ! i"
proof -
  from assms(1,3) have "length v = index_len df"
    by (auto simp: well_formed_def list_all_iff)
  moreover from assms(2,3) have "\<forall>x\<in>set v. 0 \<le> x"
    by (auto simp: non_negative_def list_all_iff)
  ultimately show ?thesis using assms(4) by simp
qed

section \<open>Two scenarios of the delta computation\<close>

lemmas run_defs =
  get_table_of_deltas_between_time_stamps_in_all_kps_def scan_all_kps_def empty_def kp_step_def
  kp_scan_def new_frame_def time_stamp_step_def at_set_def dict_set_def

text \<open>
  Claim C2, as amended. For the single-channel table \<open>[0, 5, 5, 0, 0, 9]\<close> (6 steps)
  the delta computation returns the 5-row table \<open>[5, 0, 0, 0, 4]\<close>: transition 0 bridges
  against the value at the default index 0, which is 0, and gives \<open>5 - 0\<close>; transition 2
  enters the gap and remembers index 2; transition 4 bridges against the value 5 at
  index 2 and gives \<open>9 - 5\<close>.
\<close>

theorem end_to_end_scenario:
  "get_table_of_deltas_between_time_stamps_in_all_kps
     \<lparr>index_len = 6, columns = [(kp, [0, 5, 5, 0, 0, 9 :: 'a::linordered_idom])]\<rparr>
   = Inr \<lparr>index_len = 5, columns = [(kp, [Num 5, Num 0, Num 0, Num 0, Num 4])]\<rparr>"
  by (simp add: run_defs upt_conv_Cons eval_nat_numeral)

theorem end_to_end_scenario_witness:
  "get_table_of_deltas_between_time_stamps_in_all_kps
     \<lparr>index_len = 6, columns = [(''KP_0_x'', [0, 5, 5, 0, 0, 9 :: real])]\<rparr>
   = Inr \<lparr>index_len = 5, columns = [(''KP_0_x'', [Num 5, Num 0, Num 0, Num 0, Num 4])]\<rparr>"
  using end_to_end_scenario [of "''KP_0_x''", where 'a = real] by simp

text \<open>The table \<open>[0, 0, -5, 0, 9]\<close> that claim C2 states is not what is returned.\<close>

theorem end_to_end_scenario_counterexample:
  "get_table_of_deltas_between_time_stamps_in_all_kps
     \<lparr>index_len = 6, columns = [(''KP_0_x'', [0, 5, 5, 0, 0, 9 :: real])]\<rparr>
   \<noteq> Inr \<lparr>index_len = 5, columns = [(''KP_0_x'', [Num 0, Num 0, Num (- 5), Num 0, Num 9])]\<rparr>"
  by (simp add: run_defs upt_conv_Cons eval_nat_numeral)

text \<open>
  Claim C7. For the single-channel table \<open>[3, 0, 0, 0, 7]\<close> the delta computation
  returns the deltas \<open>[0, 0, 0, 4]\<close>, and the dictionary of zero counters of the channel
  holds one entry when the function returns: the zero-run length 3, recorded at the
  bridging transition 3.
\<close>

theorem zero_run_counting:
  "\<exists>st. scan_all_kps \<lparr>index_len = 5, columns = [(kp, [3, 0, 0, 0, 7 :: 'a::linordered_idom])]\<rparr>
           = Inr st
      \<and> get_table_of_deltas_between_time_stamps_in_all_kps
           \<lparr>index_len = 5, columns = [(kp, [3, 0, 0, 0, 7 :: 'a])]\<rparr>
         = Inr (deltas st)
      \<and> deltas st = \<lparr>index_len = 4, columns = [(kp, [Num 0, Num 0, Num 0, Num 4])]\<rparr>
      \<and> counter_of_all_zeros_in_a_row_for_all_kps st kp = Some [3 \<mapsto> 3]"
  by (simp add: run_defs upt_conv_Cons eval_nat_numeral)

theorem zero_run_counting_witness:
  "\<exists>st. scan_all_kps \<lparr>index_len = 5, columns = [(''KP_0_x'', [3, 0, 0, 0, 7 :: real])]\<rparr>
           = Inr st
      \<and> at_get (deltas st) 3 ''KP_0_x'' = Some (Num 4)
      \<and> (\<exists>d. counter_of_all_zeros_in_a_row_for_all_kps st ''KP_0_x'' = Some d \<and> d 3 = Some 3)"
  using zero_run_counting [of "''KP_0_x''", where 'a = real]
  by (auto simp: at_get_def)

section \<open>The four-branch rule\<close>

text \<open>
  Claim C1. For every well-formed table all of whose values are nonnegative, every
  channel \<open>kp\<close> with values \<open>v\<close> and every transition \<open>i\<close> from 0 to \<open>T - 2\<close>, the
  function returns, and the delta at transition \<open>i\<close> of the returned table is the one
  of the four-branch rule (\<open>spec_delta\<close>, a number), the diagnostic the function holds
  for transition \<open>i\<close> when it returns is the one of the rule (\<open>spec_diagnostic\<close>: the zero
  run length at a bridging transition, none elsewhere), and the two loop variables of
  the code before iteration \<open>i\<close> are the gap state of the rule (\<open>spec_gap_state\<close>: both 0
  at first, then updated as the four rows say), from whatever state the scan of the
  channel is entered in.
\<close>

theorem delta_follows_four_branch_rule:
  assumes "well_formed table" and "non_negative table"
    and "(kp, v) \<in> set (columns table)" and "Suc i < index_len table"
  shows "\<exists>st. scan_all_kps table = Inr st
           \<and> get_table_of_deltas_between_time_stamps_in_all_kps table = Inr (deltas st)
           \<and> at_get (deltas st) i kp = Some (spec_delta v i)
           \<and> (\<exists>x. spec_delta v i = Num x)
           \<and> (\<exists>d. counter_of_all_zeros_in_a_row_for_all_kps st kp = Some d
                    \<and> d i = spec_diagnostic v i)
           \<and> (\<forall>st0. loc_of_last_timestamp_before_zero (kp_scan st0 kp v i)
                       = last_known_good_index (spec_gap_state v i)
                    \<and> counter_of_zeros_in_a_row (kp_scan st0 kp v i)
                       = zero_run_length (spec_gap_state v i))"
proof -
  from assms(1) have dist: "distinct (map fst (columns table))" by (simp add: well_formed_def)
  from assms(3,4) have ne: "\<not> empty table" by (auto simp: empty_def)
  from scan_all_kps_result[OF dist ne] obtain st where
    st: "scan_all_kps table = Inr st" and d: "deltas st = spec_deltas table"
    and c: "\<forall>kc \<in> set (columns table).
              counter_of_all_zeros_in_a_row_for_all_kps st (fst kc) =
                Some (diag_after (snd kc) (index_len table - 1))"
    by blast
  have g: "get_table_of_deltas_between_time_stamps_in_all_kps table = Inr (deltas st)"
    by (simp add: get_table_of_deltas_between_time_stamps_in_all_kps_def st)
  have cell: "at_get (deltas st) i kp = Some (spec_delta v i)"
    unfolding d by (rule at_get_spec_deltas[OF dist assms(3,4)])
  have nn: "0 \<le> v ! i" "0 \<le> v ! Suc i"
    using non_negative_nth[OF assms(1,2,3)] assms(4) by simp_all
  have num: "\<exists>x. spec_delta v i = Num x" by (rule spec_delta_Num[OF nn])
  from c assms(3) have "counter_of_all_zeros_in_a_row_for_all_kps st kp =
      Some (diag_after v (index_len table - 1))" by force
  moreover from assms(4) have "i < index_len table - 1" by arith
  then have "diag_after v (index_len table - 1) i = spec_diagnostic v i"
    by (simp add: diag_after_def)
  ultimately have diag: "\<exists>d. counter_of_all_zeros_in_a_row_for_all_kps st kp = Some d
                    \<and> d i = spec_diagnostic v i" by blast
  from st g cell num diag gap_state_scan show ?thesis by blast
qed

theorem delta_follows_four_branch_rule_witness:
  "well_formed \<lparr>index_len = 4, columns = [(''KP_0_x'', [1, 2, 0, 5 :: real])]\<rparr>
   \<and> non_negative \<lparr>index_len = 4, columns = [(''KP_0_x'', [1, 2, 0, 5 :: real])]\<rparr>
   \<and> (\<exists>st. scan_all_kps \<lparr>index_len = 4, columns = [(''KP_0_x'', [1, 2, 0, 5 :: real])]\<rparr>
              = Inr st
         \<and> at_get (deltas st) 2 ''KP_0_x'' = Some (Num 3)
         \<and> (\<exists>d. counter_of_all_zeros_in_a_row_for_all_kps st ''KP_0_x'' = Some d
                  \<and> d 2 = Some 1))"
proof -
  let ?t = "\<lparr>index_len = 4, columns = [(''KP_0_x'', [1, 2, 0, 5 :: real])]\<rparr>"
  have h1: "well_formed ?t" by (simp add: well_formed_def)
  have h2: "non_negative ?t" by (simp add: non_negative_def)
  have h3: "(''KP_0_x'', [1, 2, 0, 5 :: real]) \<in> set (columns ?t)" by simp
  have h4: "Suc 2 < index_len ?t" by simp
  have d: "spec_delta [1, 2, 0, 5 :: real] 2 = Num 3"
    by (simp add: spec_delta_def eval_nat_numeral)
  have c: "spec_diagnostic [1, 2, 0, 5 :: real] 2 = Some 1"
    by (simp add: spec_diagnostic_def eval_nat_numeral)
  from delta_follows_four_branch_rule [OF h1 h2 h3 h4] h1 h2 show ?thesis
    unfolding d c by blast
qed

lemma branch_conditions_count:
  "length (filter id (branch_conditions a b)) = (if 0 \<le> a \<and> 0 \<le> b then 1 else 0)"
  by (auto simp: branch_conditions_def)

text \<open>
  Claim C10. In a well-formed table, for every channel \<open>kp\<close> with values \<open>v\<close> and every
  transition \<open>i\<close>: when \<open>v ! i\<close> and \<open>v ! (i + 1)\<close> are both nonnegative, exactly one of
  the four branch conditions holds and the cell of the returned delta table holds a
  number; when one of the two values is negative, no branch condition holds and the
  cell is left unassigned (NaN). So every cell is assigned, by exactly one branch, in a
  table all of whose values are nonnegative, and not in general.
\<close>

theorem branches_exhaustive_and_exclusive:
  assumes "well_formed table" and "(kp, v) \<in> set (columns table)"
    and "Suc i < index_len table"
  shows "\<exists>d c. get_table_of_deltas_between_time_stamps_in_all_kps table = Inr d
           \<and> at_get d i kp = Some c
           \<and> (if 0 \<le> v ! i \<and> 0 \<le> v ! Suc i
              then (\<exists>x. c = Num x)
                   \<and> length (filter id (branch_conditions (v ! i) (v ! Suc i))) = 1
              else c = NaN \<and> filter id (branch_conditions (v ! i) (v ! Suc i)) = [])"
proof -
  from assms(1) have dist: "distinct (map fst (columns table))" by (simp add: well_formed_def)
  from assms(2,3) have ne: "\<not> empty table" by (auto simp: empty_def)
  have g: "get_table_of_deltas_between_time_stamps_in_all_kps table = Inr (spec_deltas table)"
    by (rule get_table_result[OF dist ne])
  have cell: "at_get (spec_deltas table) i kp = Some (spec_delta v i)"
    by (rule at_get_spec_deltas[OF dist assms(2,3)])
  have "if 0 \<le> v ! i \<and> 0 \<le> v ! Suc i
        then (\<exists>x. spec_delta v i = Num x)
             \<and> length (filter id (branch_conditions (v ! i) (v ! Suc i))) = 1
        else spec_delta v i = NaN \<and> filter id (branch_conditions (v ! i) (v ! Suc i)) = []"
  proof (cases "0 \<le> v ! i \<and> 0 \<le> v ! Suc i")
    case True
    then show ?thesis
      using spec_delta_Num[of v i] branch_conditions_count[of "v ! i" "v ! Suc i"] by simp
  next
    case False
    then have "spec_delta v i = NaN" by (auto simp: spec_delta_NaN_iff)
    moreover from False have "length (filter id (branch_conditions (v ! i) (v ! Suc i))) = 0"
      using branch_conditions_count[of "v ! i" "v ! Suc i"] by simp
    ultimately show ?thesis using False by simp
  qed
  with g cell show ?thesis by blast
qed

theorem branches_exhaustive_and_exclusive_witness:
  "well_formed \<lparr>index_len = 3, columns = [(''KP_0_x'', [3, 0, 7 :: real])]\<rparr>
   \<and> (\<exists>d x. get_table_of_deltas_between_time_stamps_in_all_kps
               \<lparr>index_len = 3, columns = [(''KP_0_x'', [3, 0, 7 :: real])]\<rparr> = Inr d
          \<and> at_get d 1 ''KP_0_x'' = Some (Num x))"
proof -
  let ?t = "\<lparr>index_len = 3, columns = [(''KP_0_x'', [3, 0, 7 :: real])]\<rparr>"
  have h1: "well_formed ?t" by (simp add: well_formed_def)
  have h2: "(''KP_0_x'', [3, 0, 7 :: real]) \<in> set (columns ?t)" by simp
  have h3: "Suc 1 < index_len ?t" by simp
  from branches_exhaustive_and_exclusive [OF h1 h2 h3] h1 show ?thesis
    by (auto simp: eval_nat_numeral)
qed

section \<open>Empty and one-row tables\<close>

text \<open>
  Claim C6, as amended. The delta computation raises the error, and so returns no
  table, exactly when the table has zero rows or zero channels; it returns a table
  exactly when the table has at least one row and at least one channel.
\<close>

theorem empty_input_failure:
  "(get_table_of_deltas_between_time_stamps_in_all_kps df = Inl ValueError)
     = (index_len df = 0 \<or> columns df = [])
   \<and> (\<exists>d. get_table_of_deltas_between_time_stamps_in_all_kps df = Inr d)
     = (0 < index_len df \<and> columns df \<noteq> [])"
  by (auto simp: get_table_of_deltas_between_time_stamps_in_all_kps_def scan_all_kps_def empty_def)

theorem empty_input_failure_witness:
  "get_table_of_deltas_between_time_stamps_in_all_kps
     \<lparr>index_len = 0, columns = [(''KP_0_x'', [] :: real list)]\<rparr> = Inl ValueError
   \<and> (\<exists>d. get_table_of_deltas_between_time_stamps_in_all_kps
             \<lparr>index_len = 2, columns = [(''KP_0_x'', [1, 2 :: real])]\<rparr> = Inr d)"
  using empty_input_failure [of "\<lparr>index_len = 0, columns = [(''KP_0_x'', [] :: real list)]\<rparr>"]
    empty_input_failure [of "\<lparr>index_len = 2, columns = [(''KP_0_x'', [1, 2 :: real])]\<rparr>"]
  by simp

text \<open>A table with two rows and no channel: not a zero-row table, and the error is
  raised all the same, against claim C6 as stated.\<close>

theorem empty_input_failure_counterexample:
  "well_formed \<lparr>index_len = 2, columns = [] :: (string \<times> real list) list\<rparr>
   \<and> index_len \<lparr>index_len = 2, columns = [] :: (string \<times> real list) list\<rparr> = 2
   \<and> get_table_of_deltas_between_time_stamps_in_all_kps
       \<lparr>index_len = 2, columns = [] :: (string \<times> real list) list\<rparr> = Inl ValueError"
  by (simp add: well_formed_def get_table_of_deltas_between_time_stamps_in_all_kps_def
      scan_all_kps_def empty_def)

lemma kp_step_one_row:
  "index_len df = 1 \<Longrightarrow> deltas (foldl (kp_step df) st cs) = deltas st"
  by (induction cs arbitrary: st) (simp_all add: kp_step_def kp_scan_def)

text \<open>
  Claim C9, as amended. For every table with exactly one row and at least one channel
  the delta computation raises no error and returns a delta table with zero rows and
  the same channels, in the same order.
\<close>

theorem one_row_table:
  assumes "index_len df = 1" and "columns df \<noteq> []"
  shows "get_table_of_deltas_between_time_stamps_in_all_kps df
         = Inr \<lparr>index_len = 0, columns = map (\<lambda>kc. (fst kc, [])) (columns df)\<rparr>"
  using assms
  by (simp add: get_table_of_deltas_between_time_stamps_in_all_kps_def scan_all_kps_def
      empty_def kp_step_one_row new_frame_def comp_def)

theorem one_row_table_witness:
  "get_table_of_deltas_between_time_stamps_in_all_kps
     \<lparr>index_len = 1, columns = [(''KP_0_x'', [4 :: real]), (''KP_0_y'', [0])]\<rparr>
   = Inr \<lparr>index_len = 0, columns = [(''KP_0_x'', []), (''KP_0_y'', [])]\<rparr>"
  using one_row_table [of "\<lparr>index_len = 1, columns = [(''KP_0_x'', [4 :: real]), (''KP_0_y'', [0])]\<rparr>"]
  by simp

text \<open>A table with one row and no channel: the error is raised, against claim C9 as
  stated.\<close>

theorem one_row_table_counterexample:
  "well_formed \<lparr>index_len = 1, columns = [] :: (string \<times> real list) list\<rparr>
   \<and> index_len \<lparr>index_len = 1, columns = [] :: (string \<times> real list) list\<rparr> = 1
   \<and> get_table_of_deltas_between_time_stamps_in_all_kps
       \<lparr>index_len = 1, columns = [] :: (string \<times> real list) list\<rparr> = Inl ValueError"
  by (simp add: well_formed_def get_table_of_deltas_between_time_stamps_in_all_kps_def
      scan_all_kps_def empty_def)

section \<open>The segmenter\<close>

lemma inner_loop_conv:
  "foldl (\<lambda>acc j. if P j then acc @ [f j] else acc) acc js = acc @ map f (filter P js)"
  by (induction js arbitrary: acc) simp_all

lemma outer_loop_conv:
  "foldl (\<lambda>acc i. foldl (\<lambda>acc j. if P i j then acc @ [f i j] else acc) acc js) acc is
   = acc @ concat (map (\<lambda>i. map (f i) (filter (P i) js)) is)"
  by (induction "is" arbitrary: acc) (simp_all add: inner_loop_conv)

lemma comprehension_conv:
  "concat (map (\<lambda>j. if P j then [f j] else []) js) = map f (filter P js)"
  by (induction js) simp_all

lemma get_start_to_end_list_conv:
  "get_start_to_end_list vx vy th =
     concat (map (\<lambda>i. map (\<lambda>j. (i, i + j))
        (filter (\<lambda>j. sum_list (py_slice vx i (i + j)) > th \<or> sum_list (py_slice vy i (i + j)) > th)
           [0..<30])) [0..<length vx])"
  unfolding get_start_to_end_list_def by (simp add: outer_loop_conv)

lemma spec_find_ranges_conv:
  "spec_find_ranges vx vy th =
     concat (map (\<lambda>i. map (\<lambda>j. (i, i + j))
        (filter (\<lambda>j. sum_list (py_slice vx i (i + j)) > th \<or> sum_list (py_slice vy i (i + j)) > th)
           [0..<30])) [0..<length vx])"
  unfolding spec_find_ranges_def by (simp add: comprehension_conv)

lemma in_ranges_iff:
  "(s, e) \<in> set (get_start_to_end_list vx vy th) \<longleftrightarrow>
     s < length vx \<and> s \<le> e \<and> e < s + 30 \<and>
     (sum_list (py_slice vx s e) > th \<or> sum_list (py_slice vy s e) > th)"
proof
  assume "(s, e) \<in> set (get_start_to_end_list vx vy th)"
  then obtain j where "s < length vx" "j < 30" "e = s + j"
    "sum_list (py_slice vx s (s + j)) > th \<or> sum_list (py_slice vy s (s + j)) > th"
    unfolding get_start_to_end_list_conv by auto
  then show "s < length vx \<and> s \<le> e \<and> e < s + 30 \<and>
     (sum_list (py_slice vx s e) > th \<or> sum_list (py_slice vy s e) > th)" by simp
next
  assume a: "s < length vx \<and> s \<le> e \<and> e < s + 30 \<and>
     (sum_list (py_slice vx s e) > th \<or> sum_list (py_slice vy s e) > th)"
  define j where "j = e - s"
  with a have "e = s + j" "j < 30" by arith+
  with a show "(s, e) \<in> set (get_start_to_end_list vx vy th)"
    unfolding get_start_to_end_list_conv by auto
qed

lemma sorted_windows:
  "sorted_wrt (<) is \<Longrightarrow>
   sorted_wrt range_less (concat (map (\<lambda>i. map (\<lambda>j. (i, i + j)) (filter (P i) [0..<w])) is))"
proof (induction "is")
  case Nil
  show ?case by simp
next
  case (Cons i "is")
  have "sorted_wrt (<) (filter (P i) [0..<w])"
    by (rule sorted_wrt_filter) simp
  then have one: "sorted_wrt range_less (map (\<lambda>j. (i, i + j)) (filter (P i) [0..<w]))"
    by (simp add: sorted_wrt_map range_less_def)
  from Cons have rest: "sorted_wrt range_less
      (concat (map (\<lambda>i. map (\<lambda>j. (i, i + j)) (filter (P i) [0..<w])) is))"
    and above: "\<forall>x\<in>set is. i < x" by simp_all
  from above have cross: "\<forall>a\<in>set (map (\<lambda>j. (i, i + j)) (filter (P i) [0..<w])).
      \<forall>b\<in>set (concat (map (\<lambda>i. map (\<lambda>j. (i, i + j)) (filter (P i) [0..<w])) is)).
        range_less a b"
    by (auto simp: range_less_def)
  from one rest cross show ?case by (simp add: sorted_wrt_append)
qed

text \<open>
  Claim C3. For every pair of reference delta sequences and every threshold, the
  result of the segmenter is the list of the reference definition: start index \<open>i\<close>
  over \<open>[0, N)\<close>, window length \<open>j\<close> over \<open>[0, 30)\<close>, the pair \<open>(i, i + j)\<close> kept exactly
  when the sum of \<open>ref_x[i:i+j]\<close> or of \<open>ref_y[i:i+j]\<close> (slices clipped at the end of the
  list) exceeds the threshold; and the result is in strictly ascending order by start
  index, then by end index.
\<close>

theorem segmenter_equals_reference:
  "get_start_to_end_list ref_x ref_y threshold = spec_find_ranges ref_x ref_y threshold
   \<and> sorted_wrt range_less (get_start_to_end_list ref_x ref_y threshold)"
proof
  show "get_start_to_end_list ref_x ref_y threshold = spec_find_ranges ref_x ref_y threshold"
    by (simp only: get_start_to_end_list_conv spec_find_ranges_conv)
  show "sorted_wrt range_less (get_start_to_end_list ref_x ref_y threshold)"
    unfolding get_start_to_end_list_conv by (rule sorted_windows) simp
qed


theorem segmenter_equals_reference_witness:
  "get_start_to_end_list [3, - 3 :: real] [0, 0] 2 = [(0, 1)]
   \<and> spec_find_ranges [3, - 3 :: real] [0, 0] 2 = [(0, 1)]"
  using segmenter_equals_reference [of "[3, - 3 :: real]" "[0, 0]" 2]
  by (simp add: spec_find_ranges_def py_slice_def upt_conv_Cons eval_nat_numeral)

text \<open>
  Claim C4, as amended. Every range the segmenter produces has its start index in
  \<open>[0, N)\<close>, \<open>N\<close> the number of delta rows, and its end index in
  \<open>[start, start + 30)\<close>, hence below \<open>N + 29\<close>: the end index is not clipped at \<open>N\<close>.
\<close>

theorem range_bounds:
  assumes "(start_index, end_index) \<in> set (get_start_to_end_list ref_x ref_y threshold)"
  shows "start_index < length ref_x \<and> start_index \<le> end_index
         \<and> end_index < start_index + 30 \<and> end_index < length ref_x + 29"
  using assms unfolding in_ranges_iff by arith

theorem range_bounds_witness:
  "(0, 1) \<in> set (get_start_to_end_list [3, - 3 :: real] [0, 0] 2)
   \<and> (0 :: nat) < length [3, - 3 :: real] \<and> (1 :: nat) < 0 + 30"
proof -
  have h: "(0, 1) \<in> set (get_start_to_end_list [3, - 3 :: real] [0, 0] 2)"
    by (simp add: in_ranges_iff py_slice_def)
  from range_bounds [OF h] h show ?thesis by simp
qed

text \<open>With one delta row, \<open>N = 1\<close>, the range \<open>(0, 2)\<close> is produced: its end index is not
  in \<open>[0, N)\<close>, against claim C4 as stated.\<close>

theorem range_bounds_counterexample:
  "(0, 2) \<in> set (get_start_to_end_list [5 :: real] [0] 0) \<and> \<not> 2 < length [5 :: real]"
  by (simp add: in_ranges_iff py_slice_def)

lemma sum_list_pos_member:
  fixes xs :: "('a::linordered_idom) list"
  assumes "list_all (\<lambda>x. 0 \<le> x) xs" and "x \<in> set xs" and "0 < x"
  shows "0 < sum_list xs"
  using assms
proof (induction xs)
  case Nil
  then show ?case by simp
next
  case (Cons y ys)
  then have y: "0 \<le> y" and ys: "list_all (\<lambda>x. 0 \<le> x) ys" by simp_all
  from ys have nn: "0 \<le> sum_list ys" by (simp add: sum_list_nonneg list_all_iff)
  show ?case
  proof (cases "x = y")
    case True
    with Cons.prems(3) nn show ?thesis by simp
  next
    case False
    with Cons.prems(2) have "x \<in> set ys" by simp
    from Cons.IH[OF ys this Cons.prems(3)] y show ?thesis by simp
  qed
qed

lemma positive_window_sum:
  assumes "positive_window vs i j p"
  shows "0 < sum_list (py_slice vs i (i + j))"
proof -
  from assms have p: "p < length vs" "i \<le> p" "p < i + j" "0 < vs ! p"
    and nn: "list_all (\<lambda>x. 0 \<le> x) (py_slice vs i (i + j))"
    by (simp_all add: positive_window_def)
  from p have pj: "p - i < j" and pl: "p - i < length vs - i" by arith+
  from pj pl have "p - i < length (py_slice vs i (i + j))" by (simp add: py_slice_def)
  moreover from pj p have "py_slice vs i (i + j) ! (p - i) = vs ! p" by (simp add: py_slice_def)
  ultimately have "vs ! p \<in> set (py_slice vs i (i + j))" by (metis nth_mem)
  from sum_list_pos_member[OF nn this p(4)] show ?thesis .
qed

text \<open>
  Claim C5, as amended. With threshold 0 and two reference channels of equal length
  in which every delta is a number (no NaN, that is no unassigned delta cell, in
  either channel), every window of length \<open>j < 30\<close> that starts at \<open>i\<close>, at or before
  the index \<open>p\<close> of a positive delta of one of the channels, that reaches beyond \<open>p\<close>
  (\<open>p < i + j\<close>, so \<open>j \<ge> 1\<close>) and that holds no negative delta of that channel, is a
  produced range \<open>(i, i + j)\<close>. The channels are lists of numbers here, so a NaN
  delta, whose window sum never exceeds the threshold, is excluded by their type.
\<close>

theorem threshold_zero_saturation:
  assumes "length ref_x = length ref_y" and "j < 30"
    and "positive_window ref_x i j p \<or> positive_window ref_y i j p"
  shows "(i, i + j) \<in> set (get_start_to_end_list ref_x ref_y 0)"
proof -
  from assms(1,3) have "i < length ref_x" by (auto simp: positive_window_def)
  moreover from assms(3) have "0 < sum_list (py_slice ref_x i (i + j))
      \<or> 0 < sum_list (py_slice ref_y i (i + j))"
    using positive_window_sum by blast
  ultimately show ?thesis using assms(2) by (simp add: in_ranges_iff)
qed

theorem threshold_zero_saturation_witness:
  "length [0, 3 :: real] = length [0, 0 :: real] \<and> (2 :: nat) < 30
   \<and> positive_window [0, 3 :: real] 0 2 1
   \<and> (0, 2) \<in> set (get_start_to_end_list [0, 3 :: real] [0, 0] 0)"
proof -
  have h1: "length [0, 3 :: real] = length [0, 0 :: real]" by simp
  have h2: "(2 :: nat) < 30" by simp
  have h3: "positive_window [0, 3 :: real] 0 2 1"
    by (simp add: positive_window_def py_slice_def)
  have "(0, 0 + 2) \<in> set (get_start_to_end_list [0, 3 :: real] [0, 0] 0)"
    by (rule threshold_zero_saturation [OF h1 h2 disjI1 [OF h3]])
  then have "(0, 2) \<in> set (get_start_to_end_list [0, 3 :: real] [0, 0] 0)"
    by (simp only: add_0)
  with h1 h2 h3 show ?thesis by blast
qed

text \<open>The channel \<open>[0, 3]\<close> has a positive delta at index 1; the window of length 1 that
  starts at index 0 is not produced, against claim C5 as stated.\<close>

theorem threshold_zero_saturation_counterexample:
  "0 < [0, 3 :: real] ! 1 \<and> (0 :: nat) \<le> 1
   \<and> (0, 1) \<notin> set (get_start_to_end_list [0, 3 :: real] [0, 0] 0)"
  by (simp add: in_ranges_iff py_slice_def)

section \<open>The aggregator\<close>

text \<open>Both columns of the summary are filled by the same loop over the ranges: the row
  of a start index is created by the first range with this start index and overwritten
  by every later one.\<close>

lemma overwrite_keys:
  "map fst (map (\<lambda>(k, x). if k = i then (k, v) else (k, x)) rows) = map fst rows"
  by (induction rows) (simp_all add: case_prod_unfold)

lemma at_set_enlarge_keys:
  assumes "distinct (map fst rows)"
  shows "distinct (map fst (at_set_enlarge rows i v))"
proof (cases "i \<in> set (map fst rows)")
  case True
  then have "at_set_enlarge rows i v = map (\<lambda>(k, x). if k = i then (k, v) else (k, x)) rows"
    by (simp only: at_set_enlarge_def if_True)
  with assms show ?thesis by (simp only: overwrite_keys)
next
  case False
  then have "at_set_enlarge rows i v = rows @ [(i, v)]"
    by (simp only: at_set_enlarge_def if_False)
  with assms False show ?thesis by simp
qed

lemma map_of_at_set_enlarge:
  "map_of (at_set_enlarge rows i v) k = (if k = i then Some v else map_of rows k)"
proof (cases "i \<in> set (map fst rows)")
  case True
  then obtain x where "map_of rows i = Some x"
    by (metis map_of_eq_None_iff not_None_eq set_map)
  then show ?thesis using True
    by (simp add: at_set_enlarge_def map_of_upd_cols)
next
  case False
  then have "map_of rows i = None" by (simp add: map_of_eq_None_iff)
  then show ?thesis using False
    by (auto simp: at_set_enlarge_def map_add_def split: option.splits)
qed

lemma rows_foldl_keys:
  "distinct (map fst rows) \<Longrightarrow>
   distinct (map fst (foldl (\<lambda>rows (i, j). at_set_enlarge rows i (f i j)) rows ranges))"
  by (induction ranges arbitrary: rows) (auto simp: at_set_enlarge_keys)

lemma rows_foldl_other:
  "list_all (\<lambda>r. fst r \<noteq> k) ranges \<Longrightarrow>
   map_of (foldl (\<lambda>rows (i, j). at_set_enlarge rows i (f i j)) rows ranges) k = map_of rows k"
  by (induction ranges arbitrary: rows) (auto simp: map_of_at_set_enlarge)

lemma rows_foldl_last_wins:
  assumes "list_all (\<lambda>r. fst r \<noteq> k) later"
  shows "map_of (foldl (\<lambda>rows (i, j). at_set_enlarge rows i (f i j)) rows
           (earlier @ [(k, e)] @ later)) k = Some (f k e)"
  by (simp add: rows_foldl_other[OF assms] map_of_at_set_enlarge)

lemma the_row:
  "distinct (map fst rows) \<Longrightarrow> map_of rows k = Some v \<Longrightarrow>
   filter (\<lambda>r. fst r = k) rows = [(k, v)]"
proof (induction rows)
  case Nil
  then show ?case by simp
next
  case (Cons r rows)
  show ?case
  proof (cases "fst r = k")
    case True
    with Cons.prems have "r = (k, v)" by (cases r) simp
    moreover from True Cons.prems(1) have "k \<notin> fst ` set rows" by simp
    then have "filter (\<lambda>r. fst r = k) rows = []"
      unfolding filter_empty_conv by force
    ultimately show ?thesis by simp
  next
    case False
    with Cons show ?thesis by (cases r) auto
  qed
qed

lemma rows_foldl_row:
  assumes "list_all (\<lambda>r. fst r \<noteq> k) later"
  shows "filter (\<lambda>r. fst r = k)
           (foldl (\<lambda>rows (i, j). at_set_enlarge rows i (f i j)) []
              (earlier @ [(k, e)] @ later)) = [(k, f k e)]"
  by (rule the_row) (simp_all only: rows_foldl_keys rows_foldl_last_wins[OF assms] list.map distinct.simps)

lemma label_2_7: "str 2 @ ''-'' @ str 7 = ''2-7''"
  by (simp add: str.simps digits_def)

text \<open>
  Claim C8, as amended. Rows are keyed by start index alone: for every ordered range
  list in which the ranges \<open>(2, 4)\<close> and \<open>(2, 7)\<close> appear in that order and no range
  with start index 2 follows \<open>(2, 7)\<close>, the summary has exactly one row for key 2; it
  holds the label \<open>2-7\<close> and, for every channel, the sum of the deltas of the channel
  over \<open>[2, 7)\<close> (NaN cells skipped, the slice clipped at the end of the column).
\<close>

theorem aggregation_overwrite:
  assumes "ranges = before @ [(2, 4)] @ between @ [(2, 7)] @ later"
    and "list_all (\<lambda>r. fst r \<noteq> 2) later"
  shows "filter (\<lambda>r. fst r = 2) (create_timestamps_column ranges) = [(2, ''2-7'')]
       \<and> filter (\<lambda>r. fst r = 2) (create_column_of_sum_for_kp_in_range delta_kp_column ranges)
           = [(2, sum_skipna (py_slice delta_kp_column 2 7))]"
proof -
  have r: "ranges = (before @ [(2, 4)] @ between) @ [(2, 7)] @ later"
    by (simp add: assms(1))
  have "filter (\<lambda>r. fst r = 2) (create_timestamps_column ranges)
        = [(2, str 2 @ ''-'' @ str 7)]"
    unfolding create_timestamps_column_def r by (rule rows_foldl_row[OF assms(2)])
  moreover have "filter (\<lambda>r. fst r = 2)
        (create_column_of_sum_for_kp_in_range delta_kp_column ranges)
        = [(2, sum_skipna (py_slice delta_kp_column 2 7))]"
    unfolding create_column_of_sum_for_kp_in_range_def r by (rule rows_foldl_row[OF assms(2)])
  ultimately show ?thesis by (simp only: label_2_7 simp_thms)
qed

theorem aggregation_overwrite_witness:
  "filter (\<lambda>r. fst r = 2) (create_timestamps_column [(2, 4), (3, 5), (2, 7), (5, 6)])
     = [(2, ''2-7'')]
   \<and> filter (\<lambda>r. fst r = 2)
       (create_column_of_sum_for_kp_in_range
          [Num 1, NaN, Num 2, Num 3, Num (4 :: real)] [(2, 4), (3, 5), (2, 7), (5, 6)])
     = [(2, 9)]"
proof -
  have h1: "[(2, 4), (3, 5), (2, 7), (5, 6)] = [] @ [(2, 4)] @ [(3, 5)] @ [(2, 7)] @ [(5, 6 :: nat)]"
    by simp
  have h2: "list_all (\<lambda>r. fst r \<noteq> (2 :: nat)) [(5, 6 :: nat)]" by simp
  have s: "sum_skipna (py_slice [Num 1, NaN, Num 2, Num 3, Num (4 :: real)] 2 7) = 9"
    by (simp add: py_slice_def eval_nat_numeral)
  from aggregation_overwrite [OF h1 h2, of "[Num 1, NaN, Num 2, Num 3, Num (4 :: real)]"]
  show ?thesis unfolding s .
qed

text \<open>The ranges \<open>(2, 4)\<close> and \<open>(2, 7)\<close> appear in that order and \<open>(2, 9)\<close> follows: the
  row for key 2 holds the label \<open>2-9\<close>, against claim C8 as stated.\<close>

theorem aggregation_overwrite_counterexample:
  "create_timestamps_column [(2, 4), (2, 7), (2, 9)] = [(2, ''2-9'')]
   \<and> [(2 :: nat, ''2-9'')] \<noteq> [(2, ''2-7'')]"
  by (simp add: create_timestamps_column_def at_set_enlarge_def str.simps digits_def)

end
